theory Spec2Isabelle
  imports Complex_Main "HOL-Library.Sublist"
begin

section \<open>Frame sequences: a model of \<^verbatim>\<open>src/index.js\<close>\<close>

text \<open>
  The module exports one factory function, \<^verbatim>\<open>Sequence(...args)\<close>. Its closure holds the
  array \<^verbatim>\<open>_frames\<close> and the number \<^verbatim>\<open>_chunkSize\<close>; the private helpers \<^verbatim>\<open>_flatten\<close>,
  \<^verbatim>\<open>_range\<close>, \<^verbatim>\<open>_isProgression\<close>, \<^verbatim>\<open>_spec\<close> and \<^verbatim>\<open>_progressions\<close> are pure functions of
  their arguments.

  Conventions of the model.
  \<^item> A frame is an \<open>int\<close>. JavaScript numbers are IEEE doubles; integer arithmetic on
    doubles is exact below \<open>2\<^sup>5\<^sup>3\<close> in absolute value, and the model covers that range.
    \<open>NaN\<close> and the infinities are not modelled.
  \<^item> A number that need not be an integer (a constructor argument, the argument of
    \<^verbatim>\<open>offset\<close>, \<^verbatim>\<open>scale\<close> and \<^verbatim>\<open>setChunkSize\<close>, the position inside \<^verbatim>\<open>subsample\<close>) is a
    \<open>rat\<close>; every finite double is a rational. Where the source computes a product, a
    sum or a quotient that need not be an integer, the model rounds the exact result
    to the nearest double (\<open>fl\<close> below).
  \<^item> A string is a \<open>char list\<close>: a list of code units below 256.
  \<^item> A \<^verbatim>\<open>throw\<close> is the left summand of a result \<open>error + 'a\<close>. The limits of an engine
    (the number of arguments a call can spread, the length of an array, memory) are not
    modelled.
\<close>

subsection \<open>Numbers\<close>

text \<open>\<^verbatim>\<open>Math.trunc\<close>: rounding toward zero.\<close>

definition Math_trunc :: "rat \<Rightarrow> int" where
  "Math_trunc x = (if 0 \<le> x then \<lfloor>x\<rfloor> else \<lceil>x\<rceil>)"

text \<open>
  The result of an arithmetic operation on doubles is the exact result rounded to the
  nearest double, ties to the even significand. A double has a significand of 53 bits:
  a positive \<open>x\<close> with \<open>2\<^sup>e \<le> x < 2\<^sup>e\<^sup>+\<^sup>1\<close> is rounded to a multiple of \<open>2\<^sup>e\<^sup>-\<^sup>5\<^sup>2\<close>. The exponent
  range of doubles (overflow beyond \<open>2\<^sup>1\<^sup>0\<^sup>2\<^sup>4\<close>, subnormal numbers below \<open>2\<^sup>-\<^sup>1\<^sup>0\<^sup>2\<^sup>2\<close>) is not
  modelled.
\<close>

fun log2_nat :: "nat \<Rightarrow> nat" where
  "log2_nat n = (if n < 2 then 0 else Suc (log2_nat (n div 2)))"

declare log2_nat.simps [simp del]

definition pow2 :: "int \<Rightarrow> rat" where
  "pow2 e = (if 0 \<le> e then 2 ^ nat e else 1 / 2 ^ nat (- e))"

text \<open>The exponent \<open>e\<close> with \<open>2\<^sup>e \<le> x < 2\<^sup>e\<^sup>+\<^sup>1\<close>, for \<open>x > 0\<close>.\<close>

definition binade :: "rat \<Rightarrow> int" where
  "binade x = (if 1 \<le> x then int (log2_nat (nat \<lfloor>x\<rfloor>))
               else - int (Suc (log2_nat (nat (\<lceil>1 / x\<rceil> - 1)))))"

definition round_half_even :: "rat \<Rightarrow> int" where
  "round_half_even q =
     (let f = \<lfloor>q\<rfloor>; r = q - of_int f
      in if r < 1 / 2 then f else if 1 / 2 < r then f + 1
         else if even f then f else f + 1)"

definition fl_pos :: "rat \<Rightarrow> rat" where
  "fl_pos x = (let u = pow2 (binade x - 52) in of_int (round_half_even (x / u)) * u)"

definition fl :: "rat \<Rightarrow> rat" where
  "fl x = (if x = 0 then 0 else if 0 < x then fl_pos x else - fl_pos (- x))"

subsection \<open>Strings\<close>

text \<open>
  \<^verbatim>\<open>\d\<close> and \<^verbatim>\<open>[0-9]\<close> are the ten ASCII digits. \<^verbatim>\<open>\s\<close> matches, among the code units
  below 256, tab, line feed, vertical tab, form feed, carriage return, space and the
  no-break space. \<^verbatim>\<open>SPLIT_SPEC_REGEX = /[\s,,]+/\<close> is a non-empty run of white space and
  commas.
\<close>

definition is_digit :: "char \<Rightarrow> bool" where
  "is_digit c = (c \<in> set ''0123456789'')"

definition is_digit19 :: "char \<Rightarrow> bool" where
  "is_digit19 c = (c \<in> set ''123456789'')"

definition is_space :: "char \<Rightarrow> bool" where
  "is_space c = (c \<in> {CHR 0x09, CHR 0x0A, CHR 0x0B, CHR 0x0C, CHR 0x0D, CHR 0x20, CHR 0xA0})"

definition is_sep :: "char \<Rightarrow> bool" where
  "is_sep c = (is_space c \<or> c = CHR '','')"

text \<open>
  \<^verbatim>\<open>spec.split(SPLIT_SPEC_REGEX)\<close>: the pieces between the separator runs. A string that
  starts or ends with a separator has an empty first or last piece, and the empty string
  splits into one empty piece.
\<close>

function split_spec :: "string \<Rightarrow> string list" where
  "split_spec [] = [[]]"
| "split_spec (c # cs) =
     (if is_sep c then [] # split_spec (dropWhile is_sep cs)
      else (case split_spec cs of t # ts \<Rightarrow> (c # t) # ts | [] \<Rightarrow> [[c]]))"
  by pat_completeness auto
termination
  by (relation "measure length") (auto simp: less_Suc_eq_le length_dropWhile_le)

text \<open>
  \<^verbatim>\<open>PROGRESSION_SPEC_REGEX = /^(?<first>-?\d+)(-(?<last>-?\d+)(x(?<step>[1-9][0-9]*))?)?$/\<close>.
  The character classes of the digits, of \<^verbatim>\<open>-\<close> and of \<^verbatim>\<open>x\<close> are disjoint and every
  quantifier is followed by a character outside its class or by the end of the string,
  so the greedy choice is the only one that can lead to a match, and the match is
  computed from left to right. \<open>take_int\<close> matches \<^verbatim>\<open>-?\d+\<close> at the start of a string and
  returns the matched text and the rest. \<open>match_spec\<close> returns the named groups; a group
  that did not take part in the match is \<^verbatim>\<open>undefined\<close> (\<open>None\<close>), and no match at all
  (\<^verbatim>\<open>null\<close>) is \<open>None\<close>.
\<close>

definition take_int :: "string \<Rightarrow> (string \<times> string) option" where
  "take_int s =
     (let (sign, r) = (case s of c # cs \<Rightarrow> if c = CHR ''-'' then ([c], cs) else ([], s) | [] \<Rightarrow> ([], s));
          ds = takeWhile is_digit r
      in if ds = [] then None else Some (sign @ ds, dropWhile is_digit r))"

definition is_step :: "string \<Rightarrow> bool" where
  "is_step s = (case s of [] \<Rightarrow> False | c # cs \<Rightarrow> is_digit19 c \<and> list_all is_digit cs)"

definition match_spec :: "string \<Rightarrow> (string \<times> string option \<times> string option) option" where
  "match_spec s =
     (case take_int s of
        None \<Rightarrow> None
      | Some (fst_grp, r) \<Rightarrow>
          (case r of
             [] \<Rightarrow> Some (fst_grp, None, None)
           | c # r1 \<Rightarrow>
               if c \<noteq> CHR ''-'' then None
               else (case take_int r1 of
                       None \<Rightarrow> None
                     | Some (lst_grp, r2) \<Rightarrow>
                         (case r2 of
                            [] \<Rightarrow> Some (fst_grp, Some lst_grp, None)
                          | d # st \<Rightarrow>
                              if d = CHR ''x'' \<and> is_step st then Some (fst_grp, Some lst_grp, Some st)
                              else None))))"

text \<open>
  The conversion of a string to a number, as \<^verbatim>\<open>Math.trunc\<close> applies it to the groups of
  a match: the groups are decimal digits with an optional minus sign, and their value
  is the integer they denote.
\<close>

definition digit_val :: "char \<Rightarrow> nat" where
  "digit_val c = of_char c - 48"

definition digits_val :: "string \<Rightarrow> nat" where
  "digits_val ds = foldl (\<lambda>a c. 10 * a + digit_val c) 0 ds"

definition to_number :: "string \<Rightarrow> int" where
  "to_number s = (case s of c # cs \<Rightarrow> if c = CHR ''-'' then - int (digits_val cs) else int (digits_val s)
                  | [] \<Rightarrow> 0)"

text \<open>
  The conversion of an integer to a string, as a template literal \<^verbatim>\<open>`${p[0]}`\<close> applies
  it: the decimal digits, after a minus sign for a negative number.
\<close>

definition digit_char :: "nat \<Rightarrow> char" where
  "digit_char d = ''0123456789'' ! d"

fun digits_of :: "nat \<Rightarrow> string" where
  "digits_of n = (if n < 10 then [digit_char n] else digits_of (n div 10) @ [digit_char (n mod 10)])"

declare digits_of.simps [simp del]

definition to_string :: "int \<Rightarrow> string" where
  "to_string i = (if i < 0 then CHR ''-'' # digits_of (nat (- i)) else digits_of (nat i))"

subsection \<open>The parser: \<^verbatim>\<open>_range\<close> and \<^verbatim>\<open>_flatten\<close>\<close>

datatype error = RangeError string | TypeError

text \<open>
  \<^verbatim>\<open>_range(first, last, step)\<close> is called with numbers (from the constructor's arguments)
  and with strings (the groups of a match); \<^verbatim>\<open>Math.trunc\<close> converts both. An argument
  that is \<^verbatim>\<open>undefined\<close> is \<open>None\<close>.
\<close>

datatype rarg = Num rat | Str string

fun trunc_arg :: "rarg \<Rightarrow> int" where
  "trunc_arg (Num x) = Math_trunc x"
| "trunc_arg (Str s) = to_number s"

text \<open>
  The loop \<^verbatim>\<open>for (let i = first; i <= last; i += stepVal)\<close>, where
  \<^verbatim>\<open>stepVal = Math.max(1, step)\<close> does not change.
\<close>

function range_loop :: "int \<Rightarrow> int \<Rightarrow> int \<Rightarrow> int list" where
  "range_loop i lst step =
     (if i \<le> lst then i # range_loop (i + max 1 step) lst step else [])"
  by pat_completeness auto
termination
  by (relation "measure (\<lambda>(i, lst, step). nat (lst + 1 - i))") auto

declare range_loop.simps [simp del]

text \<open>
  \<^verbatim>\<open>[first, last].sort((a, b) => (a < b ? -1 : 1))\<close> on two numbers puts the smaller
  first.
\<close>

definition range_seq :: "rarg \<Rightarrow> rarg option \<Rightarrow> rarg option \<Rightarrow> int list" where
  "range_seq fst_arg lst_arg step =
     (let first1 = trunc_arg fst_arg;
          last1 = (case lst_arg of None \<Rightarrow> first1 | Some l \<Rightarrow> trunc_arg l);
          step1 = (case step of None \<Rightarrow> 1 | Some s \<Rightarrow> trunc_arg s)
      in range_loop (min first1 last1) (max first1 last1) step1)"

definition errmsg :: string where
  "errmsg = ''Please provide a valid set of frames. Example: 1, 2-5, 10-20x2''"

text \<open>
  The \<^verbatim>\<open>reduce\<close> over the pieces of the spec string: each piece that matches appends its
  range to the accumulator, and the first piece that does not match throws.
\<close>

fun reduce_spec :: "int list \<Rightarrow> string list \<Rightarrow> error + int list" where
  "reduce_spec accum [] = Inr accum"
| "reduce_spec accum (t # ts) =
     (case match_spec t of
        Some (fst_grp, lst_grp, step) \<Rightarrow>
          reduce_spec (accum @ range_seq (Str fst_grp) (map_option Str lst_grp) (map_option Str step)) ts
      | None \<Rightarrow> Inl (RangeError errmsg))"

text \<open>
  \<^verbatim>\<open>[...new Set(a)]\<close> keeps the first occurrence of every element, in the order of \<open>a\<close>.
  \<^verbatim>\<open>.sort((a, b) => (a < b ? -1 : 1))\<close> sorts numbers in ascending order.
\<close>

definition set_order :: "int list \<Rightarrow> int list" where
  "set_order a = rev (remdups (rev a))"

definition sort_asc :: "int list \<Rightarrow> int list" where
  "sort_asc a = sort a"

text \<open>
  The arguments of the constructor, by the shape \<^verbatim>\<open>_flatten\<close> tells apart: no argument;
  a first argument that is a number (with the optional \<^verbatim>\<open>last\<close> and \<^verbatim>\<open>step\<close>, numbers
  too); a string; an array of numbers; and a first argument of any other type. Further
  arguments are ignored by the source.
\<close>

datatype other_arg = Undefined | Null | Boolean bool | Object

datatype args =
    NoArgs
  | NumArgs rat "rat option" "rat option"
  | SpecArg string
  | ArrayArg "rat list"
  | OtherArg other_arg

text \<open>
  \<^verbatim>\<open>_flatten\<close> has no \<^verbatim>\<open>else\<close> branch: for a first argument of another type it returns
  \<^verbatim>\<open>undefined\<close> (\<open>Inr None\<close>).
\<close>

fun flatten :: "args \<Rightarrow> error + int list option" where
  "flatten NoArgs = Inr (Some [])"
| "flatten (NumArgs fst_arg lst_arg step) =
     Inr (Some (range_seq (Num fst_arg) (map_option Num lst_arg) (map_option Num step)))"
| "flatten (SpecArg spec) =
     (case reduce_spec [] (split_spec spec) of
        Inl e \<Rightarrow> Inl e
      | Inr result \<Rightarrow> Inr (Some (sort_asc (set_order result))))"
| "flatten (ArrayArg a) = Inr (Some (sort_asc (set_order (map Math_trunc a))))"
| "flatten (OtherArg v) = Inr None"

subsection \<open>The Sequence object\<close>

record sequence =
  frames :: "int list"
  chunkSize :: rat

text \<open>
  \<^verbatim>\<open>_frames.push(..._flatten(...args))\<close>: spreading \<^verbatim>\<open>undefined\<close> throws a \<^verbatim>\<open>TypeError\<close>,
  since \<^verbatim>\<open>undefined\<close> is not iterable. \<^verbatim>\<open>_chunkSize\<close> starts at 1.
\<close>

definition Sequence :: "args \<Rightarrow> error + sequence" where
  "Sequence a =
     (case flatten a of
        Inl e \<Rightarrow> Inl e
      | Inr None \<Rightarrow> Inl TypeError
      | Inr (Some fs) \<Rightarrow> Inr \<lparr>frames = fs, chunkSize = 1\<rparr>)"

text \<open>Sequencing of calls that may throw.\<close>

definition and_then :: "'e + 'a \<Rightarrow> ('a \<Rightarrow> 'e + 'b) \<Rightarrow> 'e + 'b" where
  "and_then m f = (case m of Inl e \<Rightarrow> Inl e | Inr x \<Rightarrow> f x)"

fun map_result :: "('a \<Rightarrow> 'e + 'b) \<Rightarrow> 'a list \<Rightarrow> 'e + 'b list" where
  "map_result f [] = Inr []"
| "map_result f (x # xs) =
     and_then (f x) (\<lambda>y. and_then (map_result f xs) (\<lambda>ys. Inr (y # ys)))"

text \<open>A call \<^verbatim>\<open>Sequence(a)\<close> on an array of frames.\<close>

definition Sequence_of :: "int list \<Rightarrow> error + sequence" where
  "Sequence_of a = Sequence (ArrayArg (map of_int a))"

subsection \<open>The progression analyser and the serialiser\<close>

text \<open>
  \<^verbatim>\<open>_isProgression\<close>: \<^verbatim>\<open>arr.some\<close> visits every index; the callback answers \<^verbatim>\<open>false\<close> at
  index 0 and compares the difference to the predecessor with \<^verbatim>\<open>gap\<close> elsewhere.
\<close>

definition isProgression :: "int list \<Rightarrow> bool" where
  "isProgression arr =
     (if length arr < 3 then True
      else (let gap = arr ! 1 - arr ! 0
            in \<not> list_ex (\<lambda>i. if i < 1 then False else arr ! i - arr ! (i - 1) \<noteq> gap)
                    [0..<length arr]))"

text \<open>
  \<^verbatim>\<open>_progressions\<close>: \<^verbatim>\<open>results\<close> starts as \<^verbatim>\<open>[[]]\<close> and the index \<^verbatim>\<open>i\<close> is always that of
  its last element, so \<^verbatim>\<open>results[i]\<close> is \<open>last results\<close>.
\<close>

definition progressions_step :: "int list list \<Rightarrow> int \<Rightarrow> int list list" where
  "progressions_step results element =
     (let curr = last results
      in if \<not> (length curr < 2 \<or> curr ! 1 - curr ! 0 = element - curr ! (length curr - 1))
         then results @ [[element]]
         else butlast results @ [curr @ [element]])"

definition progressions_arr :: "int list \<Rightarrow> int list list" where
  "progressions_arr arr = foldl progressions_step [[]] (sort_asc arr)"

text \<open>\<^verbatim>\<open>.join(",")\<close>.\<close>

fun join_comma :: "string list \<Rightarrow> string" where
  "join_comma [] = []"
| "join_comma [t] = t"
| "join_comma (t # ts) = t @ '','' @ join_comma ts"

definition spec_run :: "int list \<Rightarrow> string" where
  "spec_run p =
     (if length p = 1 then to_string (p ! 0)
      else (let gap = p ! 1 - p ! 0
            in if gap = 1 then to_string (p ! 0) @ ''-'' @ to_string (p ! (length p - 1))
               else to_string (p ! 0) @ ''-'' @ to_string (p ! (length p - 1)) @ ''x'' @ to_string gap))"

definition spec_arr :: "int list \<Rightarrow> string" where
  "spec_arr arr = (if length arr = 0 then [] else join_comma (map spec_run (progressions_arr arr)))"

subsection \<open>The operations of a Sequence\<close>

text \<open>
  \<^verbatim>\<open>first\<close> and \<^verbatim>\<open>last\<close> read the array at an index; on the empty array the result is
  \<^verbatim>\<open>undefined\<close> (\<open>None\<close>).
\<close>

definition first :: "sequence \<Rightarrow> int option" where
  "first s = (case frames s of [] \<Rightarrow> None | f # _ \<Rightarrow> Some f)"

definition last_seq :: "sequence \<Rightarrow> int option" where
  "last_seq s = (if frames s = [] then None else Some (last (frames s)))"

definition spec :: "sequence \<Rightarrow> string" where
  "spec s = spec_arr (frames s)"

definition step :: "sequence \<Rightarrow> int option" where
  "step s =
     (if isProgression (frames s)
      then Some (if length (frames s) > 1 then frames s ! 1 - frames s ! 0 else 1)
      else None)"

definition length_seq :: "sequence \<Rightarrow> nat" where
  "length_seq s = length (frames s)"

definition setChunkSize :: "sequence \<Rightarrow> rat \<Rightarrow> sequence" where
  "setChunkSize s v = s\<lparr>chunkSize := max 1 v\<rparr>"

definition progressions :: "sequence \<Rightarrow> error + sequence list" where
  "progressions s = map_result Sequence_of (progressions_arr (frames s))"

text \<open>
  \<^verbatim>\<open>chunks\<close>: the \<^verbatim>\<open>forEach\<close> over the frames, with the chunk under construction. The frame
  is the last one when no frame is left; \<^verbatim>\<open>arr[i + 1]\<close> is the head of the rest.
\<close>

fun chunks_loop :: "rat \<Rightarrow> bool \<Rightarrow> int list \<Rightarrow> int list \<Rightarrow> error + sequence list" where
  "chunks_loop csize enforceProgressions chunk [] = Inr []"
| "chunks_loop csize enforceProgressions chunk (f # rest) =
     (let chunk1 = chunk @ [f];
          doNewChunk =
            (if of_nat (length chunk1) = csize then True
             else if rest = [] then True
             else if enforceProgressions \<and> \<not> isProgression (chunk1 @ [hd rest]) then True
             else False)
      in if doNewChunk
         then and_then (Sequence_of chunk1) (\<lambda>c.
              and_then (chunks_loop csize enforceProgressions [] rest) (\<lambda>cs. Inr (c # cs)))
         else chunks_loop csize enforceProgressions chunk1 rest)"

definition chunks :: "sequence \<Rightarrow> bool \<Rightarrow> error + sequence list" where
  "chunks s enforceProgressions = chunks_loop (chunkSize s) enforceProgressions [] (frames s)"

text \<open>
  A comparison with \<^verbatim>\<open>undefined\<close> converts it to \<^verbatim>\<open>NaN\<close> and is false.
\<close>

definition js_greater :: "int option \<Rightarrow> int option \<Rightarrow> bool" where
  "js_greater x y = (case (x, y) of (Some a, Some b) \<Rightarrow> a > b | _ \<Rightarrow> False)"

definition js_less :: "int option \<Rightarrow> int option \<Rightarrow> bool" where
  "js_less x y = (case (x, y) of (Some a, Some b) \<Rightarrow> a < b | _ \<Rightarrow> False)"

definition intersects :: "sequence \<Rightarrow> sequence \<Rightarrow> bool" where
  "intersects s other =
     (if js_greater (first s) (last_seq other) \<or> js_less (last_seq s) (first other) then False
      else list_ex (\<lambda>f. List.member (frames other) f) (frames s))"

definition intersection :: "sequence \<Rightarrow> sequence \<Rightarrow> error + sequence" where
  "intersection s other = Sequence_of (filter (\<lambda>f. List.member (frames other) f) (frames s))"

definition union_seq :: "sequence \<Rightarrow> sequence \<Rightarrow> error + sequence" where
  "union_seq s other = Sequence_of (frames s @ frames other)"

definition difference :: "sequence \<Rightarrow> sequence \<Rightarrow> error + sequence" where
  "difference s other = Sequence_of (filter (\<lambda>f. \<not> List.member (frames other) f) (frames s))"

definition offset :: "sequence \<Rightarrow> rat \<Rightarrow> error + sequence" where
  "offset s v =
     and_then (Sequence (ArrayArg (map (\<lambda>f. fl (of_int f + v)) (frames s))))
       (\<lambda>t. Inr (setChunkSize t (chunkSize s)))"

definition scale :: "sequence \<Rightarrow> rat \<Rightarrow> error + sequence" where
  "scale s v =
     and_then (Sequence (ArrayArg (map (\<lambda>f. of_int (Math_trunc (fl (of_int f * v)))) (frames s))))
       (\<lambda>t. Inr (setChunkSize t (chunkSize s)))"

text \<open>
  \<^verbatim>\<open>fill(step = 1)\<close> calls \<^verbatim>\<open>Sequence(first(), last(), step)\<close>. On the empty sequence the
  first argument is \<^verbatim>\<open>undefined\<close>, which is neither a number, a string nor an array.
\<close>

definition fill :: "sequence \<Rightarrow> rat option \<Rightarrow> error + sequence" where
  "fill s step_arg =
     (let step1 = (case step_arg of None \<Rightarrow> 1 | Some v \<Rightarrow> v)
      in and_then
           (case first s of
              None \<Rightarrow> Sequence (OtherArg Undefined)
            | Some f \<Rightarrow> Sequence (NumArgs (of_int f) (map_option of_int (last_seq s)) (Some step1)))
           (\<lambda>t. Inr (setChunkSize t (chunkSize s))))"

definition intersectingChunks :: "sequence \<Rightarrow> sequence \<Rightarrow> error + sequence list" where
  "intersectingChunks s other =
     and_then (chunks s True) (\<lambda>cs. Inr (filter (\<lambda>c. intersects c other) cs))"

text \<open>
  \<^verbatim>\<open>subsample(count)\<close>, for an integer \<^verbatim>\<open>count\<close>. The quotient \<^verbatim>\<open>n / count\<close> and the sums
  \<^verbatim>\<open>pos += gap\<close> are rounded to doubles; the half \<^verbatim>\<open>gap / 2.0\<close> of a double is exact. The
  loop runs \<^verbatim>\<open>count\<close> times. On the empty sequence \<^verbatim>\<open>count\<close> becomes 0 and the loop does
  not run, so the value of \<^verbatim>\<open>gap\<close> (\<^verbatim>\<open>NaN\<close> in the source) is not used.
  A read past the end of the array would give \<^verbatim>\<open>undefined\<close>, which the model does not
  represent; \<open>subsample_in_range\<close> below shows that for fewer than \<open>2\<^sup>2\<^sup>6\<close> frames every
  index read is inside the array.
\<close>

fun subsample_loop :: "int list \<Rightarrow> rat \<Rightarrow> nat \<Rightarrow> rat \<Rightarrow> int list" where
  "subsample_loop fs gap 0 pos = []"
| "subsample_loop fs gap (Suc k) pos = fs ! nat \<lfloor>pos\<rfloor> # subsample_loop fs gap k (fl (pos + gap))"

definition subsample :: "sequence \<Rightarrow> int \<Rightarrow> error + sequence" where
  "subsample s count =
     (let n = int (length (frames s));
          count1 = min (max 1 count) n;
          gap = fl (of_int n / of_int count1);
          pos = gap / 2
      in Sequence_of (subsample_loop (frames s) gap (nat count1) pos))"

section \<open>Auxiliary notions\<close>

text \<open>The groups of \<^verbatim>\<open>chunks\<close> before they are wrapped as Sequences.\<close>

fun chunk_lists :: "rat \<Rightarrow> bool \<Rightarrow> int list \<Rightarrow> int list \<Rightarrow> int list list" where
  "chunk_lists csize e chunk [] = []"
| "chunk_lists csize e chunk (f # rest) =
     (if of_nat (length (chunk @ [f])) = csize \<or> rest = [] \<or> (e \<and> \<not> isProgression (chunk @ [f] @ [hd rest]))
      then (chunk @ [f]) # chunk_lists csize e [] rest
      else chunk_lists csize e (chunk @ [f]) rest)"

text \<open>
  The Sequences a caller can hold: the results of the constructor and of the operations
  that return Sequences, applied to Sequences a caller can hold.
\<close>

inductive reachable :: "sequence \<Rightarrow> bool" where
  construct: "Sequence a = Inr s \<Longrightarrow> reachable s"
| set_chunk_size: "reachable s \<Longrightarrow> reachable (setChunkSize s v)"
| progression: "reachable s \<Longrightarrow> progressions s = Inr ps \<Longrightarrow> p \<in> set ps \<Longrightarrow> reachable p"
| chunk: "reachable s \<Longrightarrow> chunks s e = Inr cs \<Longrightarrow> c \<in> set cs \<Longrightarrow> reachable c"
| intersecting_chunk:
    "reachable s \<Longrightarrow> reachable other \<Longrightarrow> intersectingChunks s other = Inr cs \<Longrightarrow> c \<in> set cs
     \<Longrightarrow> reachable c"
| intersection: "reachable s \<Longrightarrow> reachable other \<Longrightarrow> intersection s other = Inr t \<Longrightarrow> reachable t"
| union: "reachable s \<Longrightarrow> reachable other \<Longrightarrow> union_seq s other = Inr t \<Longrightarrow> reachable t"
| difference: "reachable s \<Longrightarrow> reachable other \<Longrightarrow> difference s other = Inr t \<Longrightarrow> reachable t"
| offset: "reachable s \<Longrightarrow> offset s v = Inr t \<Longrightarrow> reachable t"
| scale: "reachable s \<Longrightarrow> scale s v = Inr t \<Longrightarrow> reachable t"
| fill: "reachable s \<Longrightarrow> fill s st = Inr t \<Longrightarrow> reachable t"
| subsample: "reachable s \<Longrightarrow> subsample s count = Inr t \<Longrightarrow> reachable t"







section \<open>Properties\<close>

subsection \<open>The constructor\<close>

lemma Math_trunc_of_int: "Math_trunc (of_int i) = i"
  by (simp add: Math_trunc_def)

lemma map_trunc_of_int: "map Math_trunc (map of_int a) = a"
  by (induction a) (simp_all add: Math_trunc_of_int)

lemma canonical_sort_set: "sorted_wrt (<) (sort_asc (set_order a))"
  by (simp add: strict_sorted_iff sort_asc_def set_order_def)

lemma sort_set_id: "sorted_wrt (<) a \<Longrightarrow> sort_asc (set_order a) = a"
  by (simp add: strict_sorted_iff sort_asc_def set_order_def sorted_sort_id distinct_remdups_id)

lemma set_sort_set: "set (sort_asc (set_order a)) = set a"
  by (simp add: sort_asc_def set_order_def)

lemma Sequence_ArrayArg:
  "Sequence (ArrayArg a) = Inr \<lparr>frames = sort_asc (set_order (map Math_trunc a)), chunkSize = 1\<rparr>"
  by (simp add: Sequence_def)

lemma Sequence_of_eq: "Sequence_of a = Inr \<lparr>frames = sort_asc (set_order a), chunkSize = 1\<rparr>"
  by (simp only: Sequence_of_def Sequence_ArrayArg map_trunc_of_int)

lemma Sequence_OtherArg: "Sequence (OtherArg v) = Inl TypeError"
  by (simp add: Sequence_def)

lemma range_loop_sorted: "sorted_wrt (<) (range_loop i l s)"
proof (induction i l s rule: range_loop.induct)
  case (1 i l s)
  have mem: "\<And>j. j \<in> set (range_loop (i + max 1 s) l s) \<Longrightarrow> i < j" if "i \<le> l"
  proof -
    have "\<And>a. \<forall>j \<in> set (range_loop a l s). a \<le> j"
    proof -
      fix a show "\<forall>j \<in> set (range_loop a l s). a \<le> j"
      proof (induction a l s rule: range_loop.induct)
        case (1 a l s)
        show ?case
        proof (cases "a \<le> l")
          case True
          then show ?thesis using 1 by (subst range_loop.simps) (auto simp: max_def split: if_splits)
        next
          case False
          then show ?thesis by (subst range_loop.simps) simp
        qed
      qed
    qed
    then show "\<And>j. j \<in> set (range_loop (i + max 1 s) l s) \<Longrightarrow> i < j"
      by (fastforce simp: max_def split: if_splits)
  qed
  show ?case
  proof (cases "i \<le> l")
    case True
    then show ?thesis using 1 mem by (subst range_loop.simps) auto
  next
    case False
    then show ?thesis by (subst range_loop.simps) simp
  qed
qed

lemma Sequence_frames_sorted: "Sequence a = Inr s \<Longrightarrow> sorted_wrt (<) (frames s)"
proof (cases a)
  case NoArgs
  assume "Sequence a = Inr s"
  with NoArgs show ?thesis by (auto simp: Sequence_def)
next
  case (NumArgs f l st)
  assume "Sequence a = Inr s"
  with NumArgs show ?thesis by (auto simp: Sequence_def range_seq_def Let_def range_loop_sorted)
next
  case (SpecArg str)
  assume "Sequence a = Inr s"
  with SpecArg show ?thesis
    by (auto simp: Sequence_def canonical_sort_set split: sum.splits)
next
  case (ArrayArg xs)
  assume "Sequence a = Inr s"
  with ArrayArg show ?thesis by (auto simp: Sequence_ArrayArg canonical_sort_set)
next
  case (OtherArg v)
  assume "Sequence a = Inr s"
  with OtherArg show ?thesis by (simp add: Sequence_OtherArg)
qed

lemma and_then_Inr: "and_then (Inr x) f = f x"
  by (simp add: and_then_def)


lemma map_result_Sequence_of:
  "map_result Sequence_of xs = Inr (map (\<lambda>a. \<lparr>frames = sort_asc (set_order a), chunkSize = 1\<rparr>) xs)"
  by (induction xs) (simp_all add: Sequence_of_eq and_then_Inr)

lemma chunks_loop_eq:
  "chunks_loop csize e chunk fs =
     Inr (map (\<lambda>a. \<lparr>frames = sort_asc (set_order a), chunkSize = 1\<rparr>) (chunk_lists csize e chunk fs))"
proof (induction fs arbitrary: chunk)
  case Nil
  show ?case by simp
next
  case (Cons f rest)
  show ?case
    by (simp add: Let_def Cons.IH Sequence_of_eq and_then_Inr)
qed

lemma subsample_eq:
  "subsample s count = Inr \<lparr>frames = sort_asc (set_order (subsample_loop (frames s)
      (fl (of_nat (length (frames s)) / of_int (min (max 1 count) (int (length (frames s))))))
      (nat (min (max 1 count) (int (length (frames s)))))
      (fl (of_nat (length (frames s)) / of_int (min (max 1 count) (int (length (frames s))))) / 2))),
    chunkSize = 1\<rparr>"
  by (simp add: subsample_def Let_def Sequence_of_eq)


lemma Sequence_of_sorted: "Sequence_of a = Inr t \<Longrightarrow> sorted_wrt (<) (frames t)"
  by (auto simp: Sequence_of_eq canonical_sort_set)

lemma and_then_set_chunk_sorted:
  "and_then m (\<lambda>t. Inr (setChunkSize t k)) = Inr u \<Longrightarrow> \<exists>t. m = Inr t \<and> frames u = frames t"
  by (cases m) (auto simp: and_then_def setChunkSize_def)

lemma chunks_sorted: "chunks s e = Inr cs \<Longrightarrow> c \<in> set cs \<Longrightarrow> sorted_wrt (<) (frames c)"
  by (auto simp: chunks_def chunks_loop_eq canonical_sort_set)

subsection \<open>The canonical form of the frames\<close>

lemma reachable_sorted: "reachable s \<Longrightarrow> sorted_wrt (<) (frames s)"
proof (induction rule: reachable.induct)
  case (construct a s)
  then show ?case by (rule Sequence_frames_sorted)
next
  case (set_chunk_size s v)
  then show ?case by (simp add: setChunkSize_def)
next
  case (progression s ps p)
  then show ?case by (auto simp: progressions_def map_result_Sequence_of canonical_sort_set)
next
  case (chunk s e cs c)
  then show ?case by (simp add: chunks_sorted)
next
  case (intersecting_chunk s other cs c)
  then show ?case
    by (auto simp: intersectingChunks_def chunks_def chunks_loop_eq and_then_Inr canonical_sort_set)
next
  case (intersection s other t)
  then show ?case by (simp add: intersection_def Sequence_of_sorted)
next
  case (union s other t)
  then show ?case by (simp add: union_seq_def Sequence_of_sorted)
next
  case (difference s other t)
  then show ?case by (simp add: difference_def Sequence_of_sorted)
next
  case (offset s v t)
  then show ?case
    unfolding offset_def by (auto dest!: and_then_set_chunk_sorted dest: Sequence_frames_sorted)
next
  case (scale s v t)
  then show ?case
    unfolding scale_def by (auto dest!: and_then_set_chunk_sorted dest: Sequence_frames_sorted)
next
  case (fill s st t)
  then show ?case
    unfolding fill_def Let_def
    by (auto dest!: and_then_set_chunk_sorted dest: Sequence_frames_sorted split: option.splits)
next
  case (subsample s count t)
  then show ?case by (simp add: subsample_def Let_def Sequence_of_sorted)
qed

text \<open>
  Claim C2. The frames of every Sequence a caller can hold are strictly ascending, and
  so without duplicates: for the results of the constructor on every shape of arguments
  that does not throw, after \<^verbatim>\<open>setChunkSize\<close>, and for every Sequence returned by
  \<^verbatim>\<open>progressions\<close>, \<^verbatim>\<open>chunks\<close>, \<^verbatim>\<open>intersectingChunks\<close>, \<^verbatim>\<open>intersection\<close>, \<^verbatim>\<open>union\<close>,
  \<^verbatim>\<open>difference\<close>, \<^verbatim>\<open>offset\<close>, \<^verbatim>\<open>scale\<close>, \<^verbatim>\<open>fill\<close> and \<^verbatim>\<open>subsample\<close>.
\<close>

theorem frames_canonical:
  "reachable s \<Longrightarrow> sorted_wrt (<) (frames s) \<and> distinct (frames s)"
proof -
  assume "reachable s"
  then have "sorted_wrt (<) (frames s)" by (rule reachable_sorted)
  then show ?thesis by (simp add: strict_sorted_iff)
qed

text \<open>
  The invariant at a Sequence built from an unsorted array with a duplicate and then
  scaled by 2.
\<close>

theorem frames_canonical_witness:
  "reachable \<lparr>frames = [2, 4, 20, 22], chunkSize = 1\<rparr>
   \<and> sorted_wrt (<) (frames \<lparr>frames = [2, 4, 20, 22], chunkSize = 1\<rparr>)
   \<and> distinct (frames \<lparr>frames = [2, 4, 20, 22], chunkSize = 1\<rparr>)"
proof -
  have a: "Sequence (ArrayArg [11, 1, 10, 2, 1]) = Inr \<lparr>frames = [1, 2, 10, 11], chunkSize = 1\<rparr>"
    by code_simp
  have b: "scale \<lparr>frames = [1, 2, 10, 11], chunkSize = 1\<rparr> 2 = Inr \<lparr>frames = [2, 4, 20, 22], chunkSize = 1\<rparr>"
    by code_simp
  have r: "reachable \<lparr>frames = [2, 4, 20, 22], chunkSize = 1\<rparr>"
    by (rule reachable.scale [OF reachable.construct [OF a] b])
  show ?thesis using r frames_canonical [OF r] by simp
qed

subsection \<open>Arguments of no accepted shape\<close>

text \<open>
  Claim C9, as amended. For a first argument that is neither a number, a string nor an
  array, \<^verbatim>\<open>_flatten\<close> returns \<^verbatim>\<open>undefined\<close>, and the constructor then throws a \<^verbatim>\<open>TypeError\<close>
  when it spreads that result into \<^verbatim>\<open>_frames.push\<close>: no Sequence is returned.
\<close>

theorem other_shape_raises:
  "flatten (OtherArg v) = Inr None \<and> Sequence (OtherArg v) = Inl TypeError"
  by (simp add: Sequence_def)

text \<open>
  Claim C9 as stated fails: \<^verbatim>\<open>Sequence(true)\<close> does not return a Sequence with an empty
  frame list.
\<close>

theorem other_shape_counterexample:
  "\<not> (\<exists>s. Sequence (OtherArg (Boolean True)) = Inr s \<and> frames s = [])"
  by (simp add: Sequence_def)

subsection \<open>Overlap with an empty Sequence\<close>

text \<open>
  Claim C10. When one of two Sequences is empty, both comparisons of the bounding-range
  test are false (an operand is \<^verbatim>\<open>undefined\<close>), the scan for a common frame finds none,
  and \<^verbatim>\<open>intersects\<close> returns \<^verbatim>\<open>false\<close>.
\<close>

theorem intersects_empty:
  "frames s = [] \<or> frames other = [] \<Longrightarrow>
     \<not> js_greater (first s) (last_seq other) \<and> \<not> js_less (last_seq s) (first other)
     \<and> \<not> list_ex (\<lambda>f. List.member (frames other) f) (frames s)
     \<and> \<not> intersects s other"
  by (auto simp: intersects_def js_greater_def js_less_def first_def last_seq_def list_ex_iff
      split: list.splits option.splits)

text \<open>The empty Sequence on either side of a Sequence with two frames.\<close>

theorem intersects_empty_witness:
  "(frames \<lparr>frames = [1, 2], chunkSize = 1\<rparr> = [] \<or> frames \<lparr>frames = [], chunkSize = 1\<rparr> = [])
   \<and> \<not> intersects \<lparr>frames = [1, 2], chunkSize = 1\<rparr> \<lparr>frames = [], chunkSize = 1\<rparr>
   \<and> \<not> intersects \<lparr>frames = [], chunkSize = 1\<rparr> \<lparr>frames = [1, 2], chunkSize = 1\<rparr>"
  using intersects_empty [of "\<lparr>frames = [1, 2], chunkSize = 1\<rparr>" "\<lparr>frames = [], chunkSize = 1\<rparr>"]
    intersects_empty [of "\<lparr>frames = [], chunkSize = 1\<rparr>" "\<lparr>frames = [1, 2], chunkSize = 1\<rparr>"]
  by simp

subsection \<open>Operations that cannot throw\<close>





subsection \<open>Chunks\<close>

lemma concat_chunk_lists: "fs \<noteq> [] \<Longrightarrow> concat (chunk_lists k e c fs) = c @ fs"
proof (induction fs arbitrary: c)
  case Nil
  then show ?case by simp
next
  case (Cons f rest)
  show ?case
  proof (cases "rest = []")
    case True
    then show ?thesis by simp
  next
    case False
    with Cons.IH [of "[]"] Cons.IH [of "c @ [f]"] show ?thesis by simp
  qed
qed

lemma chunk_lists_length:
  "length c < K \<Longrightarrow> x \<in> set (chunk_lists (of_nat K) e c fs) \<Longrightarrow> length x \<le> K"
proof (induction fs arbitrary: c)
  case Nil
  then show ?case by simp
next
  case (Cons f rest)
  show ?case
  proof (cases "of_nat (length (c @ [f])) = (of_nat K :: rat) \<or> rest = []
      \<or> (e \<and> \<not> isProgression (c @ [f] @ [hd rest]))")
    case True
    with Cons.prems have "x = c @ [f] \<or> x \<in> set (chunk_lists (of_nat K) e [] rest)"
      by auto
    then show ?thesis
    proof
      assume "x = c @ [f]"
      with Cons.prems(1) show ?thesis by simp
    next
      assume "x \<in> set (chunk_lists (of_nat K) e [] rest)"
      moreover from Cons.prems(1) have "length ([] :: int list) < K" by simp
      ultimately show ?thesis by (rule Cons.IH [rotated])
    qed
  next
    case False
    then have ne: "Suc (length c) \<noteq> K" by auto
    from False Cons.prems have "x \<in> set (chunk_lists (of_nat K) e (c @ [f]) rest)" by auto
    moreover from ne Cons.prems(1) have "length (c @ [f]) < K" by simp
    ultimately show ?thesis by (rule Cons.IH [rotated])
  qed
qed

lemma chunk_lists_hd:
  "fs \<noteq> [] \<Longrightarrow> chunk_lists k e c fs \<noteq> [] \<and> hd (chunk_lists k e c fs) \<noteq> []
     \<and> hd (hd (chunk_lists k e c fs)) = hd (c @ fs)"
proof (induction fs arbitrary: c)
  case Nil
  then show ?case by simp
next
  case (Cons f rest)
  show ?case
  proof (cases "rest = []")
    case True
    then show ?thesis by simp
  next
    case False
    with Cons.IH [of "c @ [f]"] show ?thesis by (cases c) auto
  qed
qed

lemma chunk_lists_breaks:
  "successively (\<lambda>a b. of_nat (length a) \<noteq> k \<longrightarrow> e \<and> \<not> isProgression (a @ [hd b]))
     (chunk_lists k e c fs)"
proof (induction fs arbitrary: c)
  case Nil
  show ?case by simp
next
  case (Cons f rest)
  show ?case
  proof (cases "of_nat (length (c @ [f])) = k \<or> rest = []
      \<or> (e \<and> \<not> isProgression (c @ [f] @ [hd rest]))")
    case True
    show ?thesis
    proof (cases "rest = []")
      case True
      then show ?thesis by simp
    next
      case False
      with chunk_lists_hd [of rest k e "[]"]
      have hd: "chunk_lists k e [] rest \<noteq> []" "hd (hd (chunk_lists k e [] rest)) = hd rest"
        by simp_all
      from True have eq: "chunk_lists k e c (f # rest) = (c @ [f]) # chunk_lists k e [] rest"
        by simp
      from True False have "of_nat (length (c @ [f])) \<noteq> k \<longrightarrow>
          e \<and> \<not> isProgression ((c @ [f]) @ [hd (hd (chunk_lists k e [] rest))])"
        using hd(2) by auto
      with Cons.IH [of "[]"] hd(1) show ?thesis
        unfolding eq successively_Cons by blast
    qed
  next
    case False
    then have "chunk_lists k e c (f # rest) = chunk_lists k e (c @ [f]) rest" by auto
    with Cons.IH [of "c @ [f]"] show ?thesis by simp
  qed
qed

lemma sorted_wrt_concat_elem:
  "sorted_wrt P (concat L) \<Longrightarrow> x \<in> set L \<Longrightarrow> sorted_wrt P x"
  by (induction L) (auto simp: sorted_wrt_append)

lemma chunks_frames:
  assumes "sorted_wrt (<) (frames s)"
  shows "chunks s e = Inr (map (\<lambda>a. \<lparr>frames = a, chunkSize = 1\<rparr>) (chunk_lists (chunkSize s) e [] (frames s)))"
proof -
  let ?L = "chunk_lists (chunkSize s) e [] (frames s)"
  have cc: "concat ?L = frames s"
    using concat_chunk_lists [of "frames s" "chunkSize s" e "[]"] by (cases "frames s = []") auto
  have "\<And>a. a \<in> set ?L \<Longrightarrow> sort_asc (set_order a) = a"
    using assms cc by (metis sorted_wrt_concat_elem sort_set_id)
  then have "map (\<lambda>a. \<lparr>frames = sort_asc (set_order a), chunkSize = 1\<rparr>) ?L
      = map (\<lambda>a. \<lparr>frames = a, chunkSize = (1::rat)\<rparr>) ?L"
    by simp
  then show ?thesis by (simp add: chunks_def chunks_loop_eq)
qed

lemma and_then_set_chunk_size:
  "and_then m (\<lambda>t. Inr (setChunkSize t k)) = Inr u \<Longrightarrow> 1 \<le> chunkSize u"
  by (cases m) (auto simp: and_then_def setChunkSize_def)

lemma reachable_chunkSize: "reachable s \<Longrightarrow> 1 \<le> chunkSize s"
proof (induction rule: reachable.induct)
  case (construct a s)
  then show ?case by (auto simp: Sequence_def split: sum.splits option.splits)
next
  case (set_chunk_size s v)
  then show ?case by (simp add: setChunkSize_def)
next
  case (progression s ps p)
  then show ?case by (auto simp: progressions_def map_result_Sequence_of)
next
  case (chunk s e cs c)
  then show ?case by (auto simp: chunks_def chunks_loop_eq)
next
  case (intersecting_chunk s other cs c)
  then show ?case by (auto simp: intersectingChunks_def chunks_def chunks_loop_eq and_then_Inr)
next
  case (intersection s other t)
  then show ?case by (auto simp: intersection_def Sequence_of_eq)
next
  case (union s other t)
  then show ?case by (auto simp: union_seq_def Sequence_of_eq)
next
  case (difference s other t)
  then show ?case by (auto simp: difference_def Sequence_of_eq)
next
  case (offset s v t)
  then show ?case unfolding offset_def by (auto dest: and_then_set_chunk_size)
next
  case (scale s v t)
  then show ?case unfolding scale_def by (auto dest: and_then_set_chunk_size)
next
  case (fill s st t)
  then show ?case unfolding fill_def Let_def by (auto dest: and_then_set_chunk_size)
next
  case (subsample s count t)
  then show ?case by (auto simp: subsample_def Let_def Sequence_of_eq)
qed

text \<open>
  Claim C4. For a Sequence whose chunk size is an integer \<open>k\<close> (it is at least 1, since
  the setter clamps it), \<^verbatim>\<open>chunks\<close> returns; the frames of the chunks, concatenated in
  order, are the frames of the Sequence; every chunk has at most \<open>k\<close> frames; and a chunk
  with fewer than \<open>k\<close> frames that is followed by another chunk occurs only when
  \<^verbatim>\<open>enforceProgressions\<close> is true and the chunk with the next frame (the first frame of the
  following chunk) appended is not a progression.
\<close>

theorem chunks_cover:
  assumes "reachable s" and "chunkSize s = of_nat k"
  shows "\<exists>cs. chunks s e = Inr cs
    \<and> concat (map frames cs) = frames s
    \<and> (\<forall>c \<in> set cs. length (frames c) \<le> k)
    \<and> successively (\<lambda>a b. length (frames a) < k \<longrightarrow>
          e \<and> \<not> isProgression (frames a @ [hd (frames b)])) cs"
proof -
  let ?L = "chunk_lists (chunkSize s) e [] (frames s)"
  let ?cs = "map (\<lambda>a. \<lparr>frames = a, chunkSize = (1::rat)\<rparr>) ?L"
  from assms(1) have sorted: "sorted_wrt (<) (frames s)" by (rule reachable_sorted)
  then have 1: "chunks s e = Inr ?cs" by (rule chunks_frames)
  have mf: "map frames ?cs = ?L" by (simp add: comp_def)
  have 2: "concat (map frames ?cs) = frames s"
    unfolding mf using concat_chunk_lists [of "frames s" "chunkSize s" e "[]"]
    by (cases "frames s = []") auto
  have k: "0 < k"
  proof -
    from assms(1) have "1 \<le> chunkSize s" by (rule reachable_chunkSize)
    with assms(2) show ?thesis by (cases k) auto
  qed
  have 3: "\<forall>c \<in> set ?cs. length (frames c) \<le> k"
    using chunk_lists_length [of "[]" k _ e "frames s"] k assms(2) by auto
  have "successively (\<lambda>a b. of_nat (length a) \<noteq> chunkSize s \<longrightarrow> e \<and> \<not> isProgression (a @ [hd b])) ?L"
    by (rule chunk_lists_breaks)
  then have "successively (\<lambda>a b. length a < k \<longrightarrow> e \<and> \<not> isProgression (a @ [hd b])) ?L"
    by (rule successively_mono) (auto simp: assms(2))
  then have 4: "successively (\<lambda>a b. length (frames a) < k \<longrightarrow>
          e \<and> \<not> isProgression (frames a @ [hd (frames b)])) ?cs"
    by (simp add: successively_map)
  from 1 2 3 4 show ?thesis by blast
qed

text \<open>
  The Sequence of the test suite, with chunk size 5: the chunks are \<open>1-3\<close>, \<open>5-8\<close> and
  \<open>10-12\<close>.
\<close>

theorem chunks_cover_witness:
  "reachable \<lparr>frames = [1, 2, 3, 5, 6, 7, 8, 10, 11, 12], chunkSize = 5\<rparr>
   \<and> chunkSize \<lparr>frames = [1, 2, 3, 5, 6, 7, 8, 10, 11, 12], chunkSize = 5\<rparr> = of_nat 5
   \<and> (\<exists>cs. chunks \<lparr>frames = [1, 2, 3, 5, 6, 7, 8, 10, 11, 12], chunkSize = 5\<rparr> True = Inr cs
        \<and> concat (map frames cs) = [1, 2, 3, 5, 6, 7, 8, 10, 11, 12]
        \<and> list_all (\<lambda>c. length (frames c) \<le> 5) cs)"
proof -
  let ?s = "\<lparr>frames = [1, 2, 3, 5, 6, 7, 8, 10, 11, 12], chunkSize = (5::rat)\<rparr>"
  have a: "Sequence (ArrayArg [1, 2, 3, 5, 6, 7, 8, 10, 11, 12])
      = Inr \<lparr>frames = [1, 2, 3, 5, 6, 7, 8, 10, 11, 12], chunkSize = 1\<rparr>"
    by code_simp
  have b: "setChunkSize \<lparr>frames = [1, 2, 3, 5, 6, 7, 8, 10, 11, 12], chunkSize = 1\<rparr> 5 = ?s"
    by (simp add: setChunkSize_def)
  have r: "reachable ?s"
    using reachable.set_chunk_size [OF reachable.construct [OF a], of 5] unfolding b .
  have k: "chunkSize ?s = of_nat 5" by simp
  show ?thesis using r k chunks_cover [OF r k, of True] by (auto simp: list_all_iff)
qed

subsection \<open>Spec strings: the matcher and the grammar\<close>














subsection \<open>Spec strings: expansion and errors\<close>






















subsection \<open>The partition into progressions\<close>



























subsection \<open>The serialiser and the round trip\<close>



























subsection \<open>Double arithmetic and subsampling\<close>

text \<open>\<open>binade x\<close> is the exponent of the power of two at or below \<open>x\<close>.\<close>

lemma log2_nat_le: "0 < n \<Longrightarrow> 2 ^ log2_nat n \<le> n"
proof (induction n rule: log2_nat.induct)
  case (1 n)
  show ?case
  proof (cases "n < 2")
    case True
    with 1(2) show ?thesis by (subst log2_nat.simps) simp
  next
    case False
    then have "0 < n div 2" by simp
    with 1(1) False have "2 ^ log2_nat (n div 2) \<le> n div 2" by simp
    then have "2 * 2 ^ log2_nat (n div 2) \<le> n" by simp
    with False show ?thesis by (subst log2_nat.simps) simp
  qed
qed

lemma log2_nat_gt: "n < 2 ^ Suc (log2_nat n)"
proof (induction n rule: log2_nat.induct)
  case (1 n)
  show ?case
  proof (cases "n < 2")
    case True
    then show ?thesis by (subst log2_nat.simps) simp
  next
    case False
    with 1 have "n div 2 < 2 ^ Suc (log2_nat (n div 2))" by simp
    then have "n < 2 * 2 ^ Suc (log2_nat (n div 2))" by simp
    with False show ?thesis by (subst log2_nat.simps) simp
  qed
qed

lemma pow2_binade_le:
  assumes "0 < x"
  shows "pow2 (binade x) \<le> x"
proof (cases "1 \<le> x")
  case True
  then have f: "0 < nat \<lfloor>x\<rfloor>" by simp
  have "pow2 (binade x) = of_nat (2 ^ log2_nat (nat \<lfloor>x\<rfloor>))"
    using True by (simp add: pow2_def binade_def)
  also have "\<dots> \<le> of_nat (nat \<lfloor>x\<rfloor>)" using log2_nat_le [OF f] by (simp only: of_nat_le_iff)
  also have "\<dots> = of_int \<lfloor>x\<rfloor>" using True by simp
  also have "\<dots> \<le> x" by simp
  finally show ?thesis .
next
  case False
  let ?M = "nat (\<lceil>1 / x\<rceil> - 1)"
  let ?L = "Suc (log2_nat ?M)"
  from assms False have "1 < 1 / x" by simp
  then have c: "1 \<le> \<lceil>1 / x\<rceil>" by linarith
  have "1 / x \<le> of_int \<lceil>1 / x\<rceil>" by simp
  also have "\<dots> = of_nat (Suc ?M)" using c by simp
  also have "\<dots> \<le> of_nat (2 ^ ?L)"
    using log2_nat_gt [of ?M] by (simp only: of_nat_le_iff)
  finally have "1 / x \<le> 2 ^ ?L" by simp
  with assms have "1 / 2 ^ ?L \<le> x"
    by (simp add: field_simps)
  moreover have "pow2 (binade x) = 1 / 2 ^ ?L"
    using False by (simp add: pow2_def binade_def nat_add_distrib)
  ultimately show ?thesis by simp
qed

lemma binade_upper:
  assumes "0 < x"
  shows "x < pow2 (binade x + 1)"
proof (cases "1 \<le> x")
  case True
  let ?L = "log2_nat (nat \<lfloor>x\<rfloor>)"
  have "nat \<lfloor>x\<rfloor> < 2 ^ Suc ?L" by (rule log2_nat_gt)
  then have "Suc (nat \<lfloor>x\<rfloor>) \<le> 2 ^ Suc ?L" by simp
  then have "(of_nat (Suc (nat \<lfloor>x\<rfloor>)) :: rat) \<le> of_nat (2 ^ Suc ?L)" by (simp only: of_nat_le_iff)
  moreover have "x < of_nat (Suc (nat \<lfloor>x\<rfloor>))"
  proof -
    have "x < of_int \<lfloor>x\<rfloor> + 1" by linarith
    also have "\<dots> = of_nat (Suc (nat \<lfloor>x\<rfloor>))" using True by simp
    finally show ?thesis .
  qed
  ultimately have "x < of_nat (2 ^ Suc ?L)" by simp
  moreover have "pow2 (binade x + 1) = of_nat (2 ^ Suc ?L)"
    using True by (simp add: pow2_def binade_def nat_add_distrib)
  ultimately show ?thesis by simp
next
  case False
  let ?M = "nat (\<lceil>1 / x\<rceil> - 1)"
  let ?L = "log2_nat ?M"
  from assms False have x1: "1 < 1 / x" by simp
  then have c: "2 \<le> \<lceil>1 / x\<rceil>" by linarith
  then have M: "0 < ?M" by simp
  have "(of_nat (2 ^ ?L) :: rat) \<le> of_nat ?M" using log2_nat_le [OF M] by (simp only: of_nat_le_iff)
  also have "\<dots> = of_int (\<lceil>1 / x\<rceil> - 1)" using c by (simp only: of_nat_nat)
  also have "\<dots> = of_int \<lceil>1 / x\<rceil> - 1" by simp
  also have "\<dots> < 1 / x" by linarith
  finally have "2 ^ ?L < 1 / x" by simp
  with assms have "x < 1 / 2 ^ ?L" by (simp add: field_simps)
  moreover have "pow2 (binade x + 1) = 1 / 2 ^ ?L"
    using False by (simp add: pow2_def binade_def)
  ultimately show ?thesis by simp
qed

lemma round_half_even_int: "round_half_even (of_int m) = m"
  by (simp add: round_half_even_def)

text \<open>A positive number below \<open>2\<^sup>5\<^sup>2\<close> whose double is an integer is a double.\<close>

lemma fl_half_integer:
  assumes "0 < x" and "x < 2 ^ 52" and "2 * x = of_int m"
  shows "fl x = x"
proof -
  define e where "e = binade x"
  have "pow2 e \<le> x" unfolding e_def using assms(1) by (rule pow2_binade_le)
  with assms(2) have lt: "pow2 e < 2 ^ 52" by simp
  have e: "e \<le> 51"
  proof (rule ccontr)
    assume "\<not> e \<le> 51"
    then have e52: "52 \<le> e" by simp
    then have "(2::rat) ^ 52 \<le> 2 ^ nat e" by (intro power_increasing) simp_all
    with e52 have "2 ^ 52 \<le> pow2 e" by (simp add: pow2_def)
    with lt show False by simp
  qed
  define k where "k = nat (51 - e)"
  have u: "pow2 (e - 52) = 1 / 2 ^ Suc k"
  proof -
    have "nat (- (e - 52)) = Suc k" using e unfolding k_def by simp
    with e show ?thesis by (simp add: pow2_def)
  qed
  have "x / pow2 (e - 52) = x * 2 ^ Suc k" by (simp add: u)
  also have "\<dots> = (2 * x) * 2 ^ k" by simp
  also have "\<dots> = of_int (m * 2 ^ k)" by (simp add: assms(3))
  finally have q: "x / pow2 (e - 52) = of_int (m * 2 ^ k)" .
  have "fl_pos x = of_int (m * 2 ^ k) * pow2 (e - 52)"
    by (simp add: fl_pos_def e_def [symmetric] Let_def q round_half_even_int del: of_int_mult)
  also have "\<dots> = x / pow2 (e - 52) * pow2 (e - 52)" by (simp only: q)
  also have "\<dots> = x" by (simp add: u)
  finally show ?thesis using assms(1) by (simp add: fl_def)
qed

text \<open>Rounding the decimal fractions \<open>0.1\<close> and \<open>2.8\<close>, and the sums of the example below.\<close>

lemma fl_examples:
  "fl (1 / 10) = 3602879701896397 / 2 ^ 55"
  "fl (14 / 5) = 3152519739159347 / 2 ^ 50"
  "fl (fl (14 / 5) / 2 + fl (14 / 5)) = 1182194902184755 / 2 ^ 48"
  "fl (fl (fl (14 / 5) / 2 + fl (14 / 5)) + fl (14 / 5)) = 7 - 1 / 2 ^ 50"
  by code_simp+

lemma subsample_loop_closed:
  "subsample_loop fs gap k pos =
     map (\<lambda>i. fs ! nat \<lfloor>((\<lambda>p. fl (p + gap)) ^^ i) pos\<rfloor>) [0..<k]"
proof (induction k arbitrary: pos)
  case 0
  show ?case by simp
next
  case (Suc k)
  have "map (\<lambda>i. fs ! nat \<lfloor>((\<lambda>p. fl (p + gap)) ^^ i) pos\<rfloor>) [0..<Suc k]
      = fs ! nat \<lfloor>pos\<rfloor> # map (\<lambda>i. fs ! nat \<lfloor>((\<lambda>p. fl (p + gap)) ^^ i) pos\<rfloor>) (map Suc [0..<k])"
    by (simp only: map_Suc_upt) (simp add: upt_conv_Cons del: upt_Suc)
  also have "map (\<lambda>i. fs ! nat \<lfloor>((\<lambda>p. fl (p + gap)) ^^ i) pos\<rfloor>) (map Suc [0..<k])
      = map (\<lambda>i. fs ! nat \<lfloor>((\<lambda>p. fl (p + gap)) ^^ i) (fl (pos + gap))\<rfloor>) [0..<k]"
    by (simp add: funpow_Suc_right comp_def del: funpow.simps)
  finally show ?case using Suc.IH [of "fl (pos + gap)"] by simp
qed

lemma length_subsample_loop: "length (subsample_loop fs gap k pos) = k"
  by (induction k arbitrary: pos) simp_all

text \<open>With a gap of 1 the positions are \<open>j + 1/2\<close>, exactly.\<close>

lemma subsample_loop_all:
  "j + k \<le> length fs \<Longrightarrow> length fs < 2 ^ 32 \<Longrightarrow>
   subsample_loop fs 1 k (of_nat j + 1 / 2) = take k (drop j fs)"
proof (induction k arbitrary: j)
  case 0
  show ?case by simp
next
  case (Suc k)
  let ?x = "of_nat (Suc j) + 1 / 2 :: rat"
  have "Suc j < 2 ^ 32" using Suc.prems by simp
  then have "(of_nat (Suc j) :: rat) < of_nat (2 ^ 32)" by (simp only: of_nat_less_iff)
  then have "(of_nat (Suc j) :: rat) < 2 ^ 32" by simp
  then have "?x < 2 ^ 52" by simp
  moreover have "2 * ?x = of_int (2 * int (Suc j) + 1)" by simp
  moreover have "0 < ?x" by (simp add: add_pos_nonneg)
  ultimately have fx: "fl ?x = ?x" by (rule fl_half_integer [rotated 1])
  have eq: "(of_nat j + 1 / 2 + 1 :: rat) = ?x" by simp
  have f: "fl (of_nat j + 1 / 2 + 1) = ?x" by (simp only: eq fx)
  have fl: "nat \<lfloor>of_nat j + 1 / 2 :: rat\<rfloor> = j" by linarith
  have j: "j < length fs" using Suc.prems by simp
  have "subsample_loop fs 1 (Suc k) (of_nat j + 1 / 2)
      = fs ! j # subsample_loop fs 1 k ?x"
    by (simp only: subsample_loop.simps f fl)
  also have "\<dots> = fs ! j # take k (drop (Suc j) fs)"
    using Suc.IH [of "Suc j"] Suc.prems by simp
  also have "\<dots> = take (Suc k) (drop j fs)"
    using j by (simp add: Cons_nth_drop_Suc [symmetric])
  finally show ?case .
qed

lemma pow2_powi: "pow2 e = 2 powi e"
  by (simp add: pow2_def power_int_def power_inverse [symmetric] inverse_eq_divide power_one_over)

lemma pow2_pos: "0 < pow2 e"
  by (simp add: pow2_powi)

lemma pow2_split: "pow2 e = pow2 (e - 52) * 2 ^ 52"
proof -
  have "(2::rat) powi e = 2 powi ((e - 52) + 52)" by simp
  also have "\<dots> = 2 powi (e - 52) * 2 powi 52" by (rule power_int_add) simp
  finally show ?thesis by (simp add: pow2_powi)
qed

lemma round_half_even_bounds:
  "q - 1 / 2 \<le> of_int (round_half_even q) \<and> of_int (round_half_even q) \<le> q + 1 / 2"
proof -
  define f where "f = \<lfloor>q\<rfloor>"
  have f: "of_int f \<le> q" "q < of_int f + 1" unfolding f_def by linarith+
  have r: "round_half_even q =
      (if q - of_int f < 1 / 2 then f else if 1 / 2 < q - of_int f then f + 1
       else if even f then f else f + 1)"
    by (simp add: round_half_even_def Let_def f_def)
  show ?thesis
  proof (cases "q - of_int f < 1 / 2")
    case True
    with f r show ?thesis by simp
  next
    case False
    with f r show ?thesis by (cases "even f") auto
  qed
qed

text \<open>The relative error of rounding a positive number to a double is at most \<open>2\<^sup>-\<^sup>5\<^sup>3\<close>.\<close>

lemma fl_bounds:
  assumes "0 < x"
  shows "0 < fl x" and "fl x \<le> x * (1 + 1 / 2 ^ 53)"
proof -
  define u where "u = pow2 (binade x - 52)"
  define q where "q = x / u"
  have u: "0 < u" unfolding u_def by (rule pow2_pos)
  have "pow2 (binade x) \<le> x" using assms by (rule pow2_binade_le)
  then have ux: "u * 2 ^ 52 \<le> x" unfolding u_def using pow2_split [of "binade x"] by simp
  have x: "x = q * u" unfolding q_def using u by simp
  have q: "2 ^ 52 \<le> q"
    unfolding q_def using ux u by (simp add: pos_le_divide_eq mult.commute)
  have f: "fl x = of_int (round_half_even q) * u"
    using assms by (simp add: fl_def fl_pos_def Let_def u_def q_def)
  from round_half_even_bounds [of q]
  have lo: "q - 1 / 2 \<le> of_int (round_half_even q)" and hi: "of_int (round_half_even q) \<le> q + 1 / 2"
    by simp_all
  have "(1::rat) \<le> 2 ^ 52" by simp
  with q lo have "0 < (of_int (round_half_even q) :: rat)" by linarith
  with u show "0 < fl x" unfolding f by simp
  have "fl x \<le> (q + 1 / 2) * u" unfolding f using hi u by (simp add: mult_right_mono)
  also have "\<dots> = x + u / 2" using x by (simp add: algebra_simps)
  also have "\<dots> \<le> x + x / 2 ^ 53"
  proof -
    have "u \<le> x / 2 ^ 52" using ux by (simp add: pos_le_divide_eq)
    then have "u / 2 \<le> x / 2 ^ 52 / 2" by simp
    then show ?thesis by simp
  qed
  also have "\<dots> = x * (1 + 1 / 2 ^ 53)" by (simp add: algebra_simps)
  finally show "fl x \<le> x * (1 + 1 / 2 ^ 53)" .
qed

lemma positions_bound:
  assumes "0 < g"
  shows "0 < ((\<lambda>p. fl (p + g)) ^^ i) (g / 2)
    \<and> ((\<lambda>p. fl (p + g)) ^^ i) (g / 2) \<le> g * (of_nat i + 1 / 2) * (1 + 1 / 2 ^ 53) ^ i"
proof (induction i)
  case 0
  from assms show ?case by simp
next
  case (Suc i)
  let ?p = "((\<lambda>p. fl (p + g)) ^^ i) (g / 2)"
  let ?d = "1 + 1 / 2 ^ 53 :: rat"
  from Suc have p: "0 < ?p" and b: "?p \<le> g * (of_nat i + 1 / 2) * ?d ^ i" by simp_all
  from p assms have pg: "0 < ?p + g" by simp
  have d1: "1 \<le> ?d ^ i" by (rule one_le_power) simp
  then have "g * 1 \<le> g * ?d ^ i" using assms by (intro mult_left_mono) simp_all
  with b have "?p + g \<le> g * (of_nat i + 1 / 2) * ?d ^ i + g * ?d ^ i" by simp
  also have "\<dots> = g * (of_nat (Suc i) + 1 / 2) * ?d ^ i" by (simp add: algebra_simps)
  finally have s: "?p + g \<le> g * (of_nat (Suc i) + 1 / 2) * ?d ^ i" .
  have "fl (?p + g) \<le> (?p + g) * ?d" using fl_bounds(2) [OF pg] .
  also have "\<dots> \<le> (g * (of_nat (Suc i) + 1 / 2) * ?d ^ i) * ?d"
    using s by (intro mult_right_mono) simp_all
  also have "\<dots> = g * (of_nat (Suc i) + 1 / 2) * ?d ^ Suc i" by simp
  finally have "fl (?p + g) \<le> g * (of_nat (Suc i) + 1 / 2) * ?d ^ Suc i" .
  moreover have "0 < fl (?p + g)" using fl_bounds(1) [OF pg] .
  ultimately show ?case by simp
qed

lemma power_bound_gen:
  fixes e :: rat
  assumes "0 \<le> e"
  shows "(1 + e) ^ c * (1 - of_nat c * e) \<le> 1"
proof (induction c)
  case 0
  show ?case by simp
next
  case (Suc c)
  let ?a = "of_nat c :: rat"
  have "(1 + e) * (1 - (?a + 1) * e) = (1 - ?a * e) - (?a + 1) * (e * e)"
    by (simp add: algebra_simps)
  also have "\<dots> \<le> 1 - ?a * e" by simp
  finally have st: "(1 + e) * (1 - (?a + 1) * e) \<le> 1 - ?a * e" .
  have "(1 + e) ^ Suc c * (1 - of_nat (Suc c) * e)
      = (1 + e) ^ c * ((1 + e) * (1 - (?a + 1) * e))"
    by (simp add: algebra_simps)
  also have "\<dots> \<le> (1 + e) ^ c * (1 - ?a * e)"
    using st assms by (intro mult_left_mono) simp_all
  also have "\<dots> \<le> 1" using Suc.IH by simp
  finally show ?case .
qed

text \<open>
  For fewer than \<open>2\<^sup>2\<^sup>6\<close> frames the rounding errors stay below the half gap that
  separates the last position from \<open>n\<close>: every index \<^verbatim>\<open>subsample\<close> reads is inside the
  array.
\<close>

lemma subsample_in_range:
  assumes "0 < c" and "c \<le> n" and "n < 2 ^ 26" and "i < c"
  shows "nat \<lfloor>((\<lambda>p. fl (p + fl (of_nat n / of_nat c))) ^^ i) (fl (of_nat n / of_nat c) / 2)\<rfloor> < n"
proof -
  define e :: rat where "e = 1 / 2 ^ 53"
  define d :: rat where "d = 1 + e"
  define a :: rat where "a = of_nat c"
  define x0 :: rat where "x0 = of_nat n / of_nat c"
  define g where "g = fl x0"
  define P where "P = ((\<lambda>p. fl (p + g)) ^^ i) (g / 2)"
  have e: "0 \<le> e" "0 < e" unfolding e_def by simp_all
  have d: "1 \<le> d" "0 \<le> d" unfolding d_def using e by simp_all
  have a1: "1 \<le> a" unfolding a_def using assms(1) by simp
  have x0: "0 < x0" unfolding x0_def using assms(1,2) by simp
  have g: "0 < g" "g \<le> x0 * d"
    unfolding g_def d_def e_def using fl_bounds [OF x0] by simp_all
  have "P \<le> g * (of_nat i + 1 / 2) * (1 + 1 / 2 ^ 53) ^ i"
    unfolding P_def using positions_bound [OF g(1), of i] by simp
  then have P1: "P \<le> g * (of_nat i + 1 / 2) * d ^ i" by (simp add: d_def e_def)
  have ia: "(of_nat i :: rat) + 1 / 2 \<le> a - 1 / 2"
  proof -
    from assms(4) have "Suc i \<le> c" by simp
    then have "(of_nat (Suc i) :: rat) \<le> of_nat c" by (simp only: of_nat_le_iff)
    then show ?thesis by (simp add: a_def)
  qed
  have di: "0 \<le> d ^ i" using d by simp
  have "g * (of_nat i + 1 / 2) * d ^ i \<le> g * (a - 1 / 2) * d ^ i"
    using ia g(1) di by (intro mult_right_mono mult_left_mono) simp_all
  also have "\<dots> \<le> (x0 * d) * (a - 1 / 2) * d ^ i"
    using g(2) a1 di by (intro mult_right_mono) simp_all
  also have "\<dots> = x0 * (a - 1 / 2) * d ^ Suc i" by simp
  also have "\<dots> \<le> x0 * (a - 1 / 2) * d ^ c"
  proof -
    from assms(4) have "Suc i \<le> c" by simp
    then have "d ^ Suc i \<le> d ^ c" using d(1) by (rule power_increasing)
    then show ?thesis using x0 a1 by (intro mult_left_mono) simp_all
  qed
  finally have P2: "P \<le> x0 * ((a - 1 / 2) * d ^ c)" using P1 by (simp add: mult.assoc)
  have alt: "a < 2 ^ 26"
  proof -
    from assms(2,3) have "c < 2 ^ 26" by simp
    then have "(of_nat c :: rat) < of_nat (2 ^ 26)" by (simp only: of_nat_less_iff)
    then show ?thesis by (simp add: a_def)
  qed
  have aa: "a * a * e < 1 / 2"
  proof -
    have "a * a < 2 ^ 26 * 2 ^ 26" using alt a1 by (intro mult_strict_mono) simp_all
    then have "a * a < 2 ^ 52" by simp
    then have "a * a * e < 2 ^ 52 * e" using e(2) by (simp only: mult_less_cancel_right_pos)
    then show ?thesis by (simp add: e_def)
  qed
  have ae: "0 < 1 - a * e"
  proof -
    have "a * e \<le> a * a * e" using a1 e(1) by (intro mult_right_mono) simp_all
    with aa show ?thesis by simp
  qed
  have pb: "d ^ c * (1 - a * e) \<le> 1"
    unfolding d_def a_def using power_bound_gen [OF e(1), of c] .
  have "(a - 1 / 2) * d ^ c * (1 - a * e) = (a - 1 / 2) * (d ^ c * (1 - a * e))"
    by (simp add: mult.assoc)
  also have "\<dots> \<le> (a - 1 / 2) * 1" using pb a1 by (intro mult_left_mono) simp_all
  also have "\<dots> < a * (1 - a * e)" using aa by (simp add: algebra_simps)
  finally have "(a - 1 / 2) * d ^ c * (1 - a * e) < a * (1 - a * e)" .
  then have "(a - 1 / 2) * d ^ c < a" using ae by (simp only: mult_less_cancel_right_pos)
  then have "x0 * ((a - 1 / 2) * d ^ c) < x0 * a" using x0 by (simp only: mult_less_cancel_left_pos)
  also have "x0 * a = of_nat n" unfolding x0_def a_def using assms(1) by simp
  finally have "P < of_nat n" using P2 by simp
  then have "\<lfloor>P\<rfloor> < int n" by (simp add: floor_less_iff)
  moreover from assms(1,2) have "0 < n" by simp
  ultimately have "nat \<lfloor>P\<rfloor> < n" by linarith
  then show ?thesis unfolding P_def g_def x0_def .
qed

text \<open>The boundary cases of \<^verbatim>\<open>subsample\<close>.\<close>

lemma subsample_all:
  assumes "sorted_wrt (<) (frames s)" and "frames s \<noteq> []" and "length (frames s) < 2 ^ 32"
    and "int (length (frames s)) \<le> count"
  shows "subsample s count = Inr \<lparr>frames = frames s, chunkSize = 1\<rparr>"
proof -
  let ?n = "length (frames s)"
  from assms(2) have n: "0 < ?n" by simp
  with assms(4) have c: "min (max 1 count) (int ?n) = int ?n" by simp
  have f1: "fl 1 = 1" by (rule fl_half_integer [of 1 2]) simp_all
  with n have gap: "fl (of_nat ?n / of_int (int ?n)) = 1" by simp
  have "subsample_loop (frames s) 1 ?n (of_nat 0 + 1 / 2) = take ?n (drop 0 (frames s))"
    by (rule subsample_loop_all) (use assms(3) in simp_all)
  then have "subsample_loop (frames s) 1 ?n (1 / 2) = frames s" by simp
  then show ?thesis
    using assms(1) assms(2) by (simp add: subsample_def Let_def c f1 Sequence_of_eq sort_set_id)
qed

lemma subsample_one:
  assumes "frames s \<noteq> []" and "length (frames s) < 2 ^ 32" and "count \<le> 1"
  shows "subsample s count = Inr \<lparr>frames = [frames s ! (length (frames s) div 2)], chunkSize = 1\<rparr>"
proof -
  let ?n = "length (frames s)"
  from assms(1) have n: "0 < ?n" by simp
  then have "1 \<le> int ?n" by linarith
  with assms(3) have c: "min (max 1 count) (int ?n) = 1" by (simp add: min_def max_def)
  have "?n < 2 ^ 52" using assms(2) by simp
  then have "(of_nat ?n :: rat) < of_nat (2 ^ 52)" by (simp only: of_nat_less_iff)
  then have lt: "(of_nat ?n :: rat) < 2 ^ 52" by simp
  have gap: "fl (of_nat ?n) = of_nat ?n"
    by (rule fl_half_integer [of _ "2 * int ?n"]) (use n lt in simp_all)
  have fl: "nat \<lfloor>(of_nat ?n :: rat) / 2\<rfloor> = ?n div 2"
    using floor_divide_of_nat_eq [of ?n 2, where ?'a = rat] by simp
  have so: "sort_asc (set_order [frames s ! (?n div 2)]) = [frames s ! (?n div 2)]"
    by (rule sort_set_id) simp
  have "subsample_loop (frames s) (of_nat ?n) (Suc 0) (of_nat ?n / 2) = [frames s ! (?n div 2)]"
    by (simp add: fl)
  then show ?thesis
    by (simp add: subsample_def Let_def c gap Sequence_of_eq so)
qed

text \<open>
  Claim C5, as amended. For every Sequence with \<open>n > 0\<close> frames (an array has fewer than
  \<open>2\<^sup>3\<^sup>2\<close> elements) and every integer count: the count is clamped to the range from 1 to
  \<open>n\<close>; the gap is the quotient of \<open>n\<close> by the count, the position starts at half the gap,
  and the frames selected are those at the floor of the position, which advances by the
  gap each time, all in double arithmetic (for fewer than \<open>2\<^sup>2\<^sup>6\<close> frames every such
  index is inside the array); a count of at least \<open>n\<close> returns all \<open>n\<close> frames
  in order; a count of at most 1 returns the one frame at index \<open>\<lfloor>n / 2\<rfloor>\<close>; and
  \<^verbatim>\<open>Sequence("1-10").subsample(3)\<close> has the frames \<open>2, 6, 9\<close>.
\<close>

theorem subsample_algorithm:
  assumes "reachable s" and "frames s \<noteq> []" and "length (frames s) < 2 ^ 32"
  shows "(let n = length (frames s);
              c = min (max 1 count) (int n);
              gap = fl (of_nat n / of_int c)
          in 1 \<le> c \<and> c \<le> int n
           \<and> subsample s count =
               Sequence_of (map (\<lambda>i. frames s ! nat \<lfloor>((\<lambda>pos. fl (pos + gap)) ^^ i) (gap / 2)\<rfloor>)
                                [0..<nat c])
           \<and> (n < 2 ^ 26 \<longrightarrow>
                (\<forall>i < nat c. nat \<lfloor>((\<lambda>pos. fl (pos + gap)) ^^ i) (gap / 2)\<rfloor> < n))
           \<and> (int n \<le> count \<longrightarrow> subsample s count = Inr \<lparr>frames = frames s, chunkSize = 1\<rparr>)
           \<and> (count \<le> 1 \<longrightarrow>
                subsample s count = Inr \<lparr>frames = [frames s ! (n div 2)], chunkSize = 1\<rparr>))
     \<and> and_then (Sequence (SpecArg ''1-10'')) (\<lambda>t. subsample t 3)
         = Inr \<lparr>frames = [2, 6, 9], chunkSize = 1\<rparr>"
proof -
  let ?n = "length (frames s)"
  let ?c = "min (max 1 count) (int ?n)"
  let ?gap = "fl (of_nat ?n / of_int ?c)"
  from assms(2) have 1: "1 \<le> ?c \<and> ?c \<le> int ?n" by (cases "frames s") auto
  have 2: "subsample s count =
      Sequence_of (map (\<lambda>i. frames s ! nat \<lfloor>((\<lambda>pos. fl (pos + ?gap)) ^^ i) (?gap / 2)\<rfloor>)
                       [0..<nat ?c])"
    by (simp add: subsample_def Let_def subsample_loop_closed)
  have 6: "?n < 2 ^ 26 \<longrightarrow>
      (\<forall>i < nat ?c. nat \<lfloor>((\<lambda>pos. fl (pos + ?gap)) ^^ i) (?gap / 2)\<rfloor> < ?n)"
  proof (intro impI allI)
    fix i assume n: "?n < 2 ^ 26" and i: "i < nat ?c"
    define k where "k = nat ?c"
    from 1 have k: "?c = int k" "0 < k" "k \<le> ?n" unfolding k_def by linarith+
    from i have ik: "i < k" by (simp only: k(1) nat_int)
    have "nat \<lfloor>((\<lambda>pos. fl (pos + fl (of_nat ?n / of_nat k))) ^^ i) (fl (of_nat ?n / of_nat k) / 2)\<rfloor> < ?n"
      using k(2) k(3) n ik by (rule subsample_in_range)
    then show "nat \<lfloor>((\<lambda>pos. fl (pos + ?gap)) ^^ i) (?gap / 2)\<rfloor> < ?n"
      by (simp only: k(1) of_int_of_nat_eq)
  qed
  have 3: "int ?n \<le> count \<longrightarrow> subsample s count = Inr \<lparr>frames = frames s, chunkSize = 1\<rparr>"
    using subsample_all [OF reachable_sorted [OF assms(1)] assms(2) assms(3)] by blast
  have 4: "count \<le> 1 \<longrightarrow>
      subsample s count = Inr \<lparr>frames = [frames s ! (?n div 2)], chunkSize = 1\<rparr>"
    using subsample_one [OF assms(2) assms(3)] by blast
  have 5: "and_then (Sequence (SpecArg ''1-10'')) (\<lambda>t. subsample t 3)
      = Inr \<lparr>frames = [2, 6, 9], chunkSize = 1\<rparr>"
    by code_simp
  from 1 2 3 4 5 6 show ?thesis unfolding Let_def by blast
qed

text \<open>
  The Sequence \<^verbatim>\<open>Sequence("1-10")\<close> of the test suite, sampled with counts 11, 1 and 3.
\<close>

theorem subsample_algorithm_witness:
  "reachable \<lparr>frames = [1, 2, 3, 4, 5, 6, 7, 8, 9, 10], chunkSize = 1\<rparr>
   \<and> frames \<lparr>frames = [1, 2, 3, 4, 5, 6, 7, 8, 9, 10], chunkSize = 1\<rparr> \<noteq> []
   \<and> length (frames \<lparr>frames = [1, 2, 3, 4, 5, 6, 7, 8, 9, 10], chunkSize = 1\<rparr>) < 2 ^ 32
   \<and> length (frames \<lparr>frames = [1, 2, 3, 4, 5, 6, 7, 8, 9, 10], chunkSize = 1\<rparr>) < 2 ^ 26
   \<and> subsample \<lparr>frames = [1, 2, 3, 4, 5, 6, 7, 8, 9, 10], chunkSize = 1\<rparr> 11
       = Inr \<lparr>frames = [1, 2, 3, 4, 5, 6, 7, 8, 9, 10], chunkSize = 1\<rparr>
   \<and> subsample \<lparr>frames = [1, 2, 3, 4, 5, 6, 7, 8, 9, 10], chunkSize = 1\<rparr> 1
       = Inr \<lparr>frames = [6], chunkSize = 1\<rparr>"
proof -
  let ?s = "\<lparr>frames = [1, 2, 3, 4, 5, 6, 7, 8, 9, 10], chunkSize = (1::rat)\<rparr>"
  have a: "Sequence (SpecArg ''1-10'') = Inr ?s" by code_simp
  have r: "reachable ?s" by (rule reachable.construct [OF a])
  have ne: "frames ?s \<noteq> []" by simp
  have len: "length (frames ?s) < 2 ^ 32" by simp
  note w11 = subsample_algorithm [OF r ne len, of 11, unfolded Let_def]
  note w1 = subsample_algorithm [OF r ne len, of 1, unfolded Let_def]
  from w11 have "int (length (frames ?s)) \<le> 11 \<longrightarrow> subsample ?s 11 = Inr \<lparr>frames = frames ?s, chunkSize = 1\<rparr>"
    by blast
  then have 1: "subsample ?s 11 = Inr ?s" by simp
  from w1 have "(1::int) \<le> 1 \<longrightarrow>
      subsample ?s 1 = Inr \<lparr>frames = [frames ?s ! (length (frames ?s) div 2)], chunkSize = 1\<rparr>"
    by blast
  then have 2: "subsample ?s 1 = Inr \<lparr>frames = [6], chunkSize = 1\<rparr>" by simp
  have len26: "length (frames ?s) < 2 ^ 26" by simp
  from r ne len len26 1 2 show ?thesis by blast
qed

text \<open>
  Claim C5 as stated fails on the empty Sequence: the count becomes 0, which is not in
  the range from 1 to \<open>n\<close>, and \<^verbatim>\<open>subsample(1)\<close> returns no frame.
\<close>

theorem subsample_empty_counterexample:
  "Sequence NoArgs = Inr \<lparr>frames = [], chunkSize = 1\<rparr>
   \<and> min (max 1 1) (int (length (frames \<lparr>frames = [], chunkSize = 1\<rparr>))) = 0
   \<and> subsample \<lparr>frames = [], chunkSize = 1\<rparr> 1 = Inr \<lparr>frames = [], chunkSize = 1\<rparr>"
  by (simp add: Sequence_def subsample_def Sequence_of_eq sort_asc_def set_order_def)

text \<open>
  The positions are doubles: for 14 frames and a count of 5 the gap is the double nearest
  to 2.8, the third position is the double just below 7, and the third sample is the
  frame at index 6, where exact arithmetic would select index 7.
\<close>

lemma subsample_rounding_example:
  "subsample \<lparr>frames = [1, 2, 3, 4, 5, 6, 7, 8, 9, 10, 11, 12, 13, 14], chunkSize = 1\<rparr> 5
     = Inr \<lparr>frames = [2, 5, 7, 10, 13], chunkSize = 1\<rparr>
   \<and> \<lfloor>5 * (14 / 5 :: rat) / 2\<rfloor> = 7"
  by code_simp

end
